theory Spec2Isabelle
  imports Complex_Main
begin

section \<open>The merge operation of csvutil.py\<close>

text \<open>
  The development follows \<^verbatim>\<open>op_merge\<close> of \<^verbatim>\<open>src/bin/csvutil.py\<close>: the table of
  aggregation functions \<^verbatim>\<open>fcn_set\<close>, the parser \<^verbatim>\<open>ff\<close> of \<^verbatim>\<open>field:function\<close>
  pairs, and the closures \<^verbatim>\<open>make_comparable\<close>, \<^verbatim>\<open>add_mergeable\<close>,
  \<^verbatim>\<open>reset_cmp_line\<close> and \<^verbatim>\<open>collect_and_aggregate\<close> over the shared variables
  \<^verbatim>\<open>cmp_line\<close> and \<^verbatim>\<open>aggregate_values\<close>.
\<close>

subsection \<open>Exceptions and values\<close>

text \<open>
  An exception that nothing catches ends the run. \<open>SystemExit\<close> is what
  \<^verbatim>\<open>sys.exit(1)\<close> in \<^verbatim>\<open>fatal\<close> raises.
\<close>

datatype error = SystemExit | IndexError | KeyError | ValueError | StatisticsError

text \<open>
  What a function of \<^verbatim>\<open>fcn_set\<close> returns: a float (the numeric functions), the text of
  a field (\<^verbatim>\<open>first\<close>, \<^verbatim>\<open>last\<close>) or \<^verbatim>\<open>None\<close> (\<^verbatim>\<open>ignore\<close>). The type \<open>'f\<close>
  stands for Python's float.
\<close>

datatype 'f pyval = PyFloat 'f | PyStr string | PyNone

text \<open>
  The float type and the functions on it are Python's own (\<^verbatim>\<open>float\<close>, \<^verbatim>\<open>str\<close>,
  \<^verbatim>\<open>sum\<close>, \<^verbatim>\<open>min\<close>, \<^verbatim>\<open>max\<close> and the \<^verbatim>\<open>statistics\<close> module), not code of this
  program: they are a parameter of the model. \<open>lib_float s = None\<close> is the ValueError
  of \<^verbatim>\<open>float(s)\<close>; a reduction returns \<open>Inl e\<close> where the library raises.
\<close>

record 'f pylib =
  lib_float :: "string \<Rightarrow> 'f option"
  lib_str :: "'f \<Rightarrow> string"
  lib_sum :: "'f list \<Rightarrow> error + 'f pyval"
  lib_min :: "'f list \<Rightarrow> error + 'f pyval"
  lib_max :: "'f list \<Rightarrow> error + 'f pyval"
  lib_mean :: "'f list \<Rightarrow> error + 'f pyval"
  lib_median :: "'f list \<Rightarrow> error + 'f pyval"
  lib_stdev :: "'f list \<Rightarrow> error + 'f pyval"

text \<open>\<^verbatim>\<open>str(v)\<close>, as \<^verbatim>\<open>add_mergeable\<close> applies it to a function's result.\<close>

fun str :: "'f pylib \<Rightarrow> 'f pyval \<Rightarrow> string" where
  "str lib (PyFloat x) = lib_str lib x"
| "str lib (PyStr s) = s"
| "str lib PyNone = ''None''"

text \<open>\<^verbatim>\<open>delimiter.join(l)\<close>.\<close>

fun join :: "string \<Rightarrow> string list \<Rightarrow> string" where
  "join d [] = []"
| "join d [x] = x"
| "join d (x # y # ys) = x @ d @ join d (y # ys)"

subsection \<open>The table of functions\<close>

type_synonym 'f fcn = "string list \<Rightarrow> error + 'f pyval"

text \<open>\<^verbatim>\<open>[float(n) for n in l]\<close>: the first text that is no number raises ValueError.\<close>

fun floats :: "'f pylib \<Rightarrow> string list \<Rightarrow> error + 'f list" where
  "floats lib [] = Inr []"
| "floats lib (n # l) =
     (case lib_float lib n of
        None \<Rightarrow> Inl ValueError
      | Some x \<Rightarrow> (case floats lib l of Inl e \<Rightarrow> Inl e | Inr xs \<Rightarrow> Inr (x # xs)))"

text \<open>\<^verbatim>\<open>numberify(f) = lambda l: f([float(n) for n in l])\<close>.\<close>

definition numberify :: "'f pylib \<Rightarrow> ('f list \<Rightarrow> error + 'f pyval) \<Rightarrow> 'f fcn" where
  "numberify lib f l = (case floats lib l of Inl e \<Rightarrow> Inl e | Inr xs \<Rightarrow> f xs)"

text \<open>
  \<^verbatim>\<open>trivial_multiple(f) = lambda l: f(l) if len(l) > 1 else f([l[0], l[0]])\<close>;
  \<^verbatim>\<open>l[0]\<close> raises IndexError on the empty list.
\<close>

definition trivial_multiple :: "('a list \<Rightarrow> error + 'b) \<Rightarrow> 'a list \<Rightarrow> error + 'b" where
  "trivial_multiple f l =
     (if length l > 1 then f l
      else (case l of [] \<Rightarrow> Inl IndexError | x # _ \<Rightarrow> f [x, x]))"

text \<open>\<^verbatim>\<open>lambda l: l[0]\<close>, \<^verbatim>\<open>lambda l: l[-1]\<close> and \<^verbatim>\<open>lambda l: None\<close>.\<close>

definition fcn_first :: "'f fcn" where
  "fcn_first l = (case l of [] \<Rightarrow> Inl IndexError | x # _ \<Rightarrow> Inr (PyStr x))"

definition fcn_last :: "'f fcn" where
  "fcn_last l = (if l = [] then Inl IndexError else Inr (PyStr (last l)))"

definition fcn_ignore :: "'f fcn" where
  "fcn_ignore l = Inr PyNone"

text \<open>The dictionary \<^verbatim>\<open>fcn_set\<close>, as the list of its items; \<open>map_of\<close> looks a name up.\<close>

definition fcn_set :: "'f pylib \<Rightarrow> (string \<times> 'f fcn) list" where
  "fcn_set lib =
     [(''sum'', numberify lib (lib_sum lib)),
      (''min'', numberify lib (lib_min lib)),
      (''max'', numberify lib (lib_max lib)),
      (''mean'', numberify lib (lib_mean lib)),
      (''median'', numberify lib (lib_median lib)),
      (''stdev'', numberify lib (trivial_multiple (lib_stdev lib))),
      (''first'', fcn_first),
      (''last'', fcn_last),
      (''ignore'', fcn_ignore)]"

subsection \<open>Parsing the field:function pairs\<close>

definition is_digit :: "char \<Rightarrow> bool" where
  "is_digit c = (c \<in> set ''0123456789'')"

definition is_lower :: "char \<Rightarrow> bool" where
  "is_lower c = (c \<in> set ''abcdefghijklmnopqrstuvwxyz'')"

text \<open>
  \<^verbatim>\<open>re.search("^([0-9]+):([a-z]+)$", s)\<close>: the two groups, or None. Python's \<^verbatim>\<open>$\<close>
  also matches just before a newline that ends the text.
\<close>

definition re_search :: "string \<Rightarrow> (string \<times> string) option" where
  "re_search s =
     (let t = (if s \<noteq> [] \<and> last s = CHR 0x0A then butlast s else s);
          g1 = takeWhile is_digit t;
          r = dropWhile is_digit t
      in case r of
           [] \<Rightarrow> None
         | c # g2 \<Rightarrow>
             if g1 \<noteq> [] \<and> c = CHR '':'' \<and> g2 \<noteq> [] \<and> list_all is_lower g2
             then Some (g1, g2) else None)"

text \<open>\<^verbatim>\<open>int(m.group(1))\<close> on a text of decimal digits.\<close>

definition digit_value :: "char \<Rightarrow> nat" where
  "digit_value c = of_char c - 48"

definition int_of_digits :: "string \<Rightarrow> nat" where
  "int_of_digits ds = foldl (\<lambda>a c. 10 * a + digit_value c) 0 ds"

text \<open>
  \<^verbatim>\<open>ff(s)\<close>. \<open>Inl msg\<close> is the call \<^verbatim>\<open>fatal(msg)\<close>, which never returns.
\<close>

definition ff :: "'f pylib \<Rightarrow> string \<Rightarrow> string + (nat \<times> 'f fcn)" where
  "ff lib s =
     (case re_search s of
        None \<Rightarrow> Inl (''unable to interpret field:function '' @ s)
      | Some (g1, g2) \<Rightarrow>
          (case map_of (fcn_set lib) g2 of
             None \<Rightarrow> Inl (''no such field:function operation: '' @ g2)
           | Some f \<Rightarrow> Inr (int_of_digits g1, f)))"

text \<open>\<^verbatim>\<open>field_functions = [ff(s) for s in args.field_function]\<close>.\<close>

fun field_functions :: "'f pylib \<Rightarrow> string list \<Rightarrow> string + (nat \<times> 'f fcn) list" where
  "field_functions lib [] = Inr []"
| "field_functions lib (s # ss) =
     (case ff lib s of
        Inl msg \<Rightarrow> Inl msg
      | Inr p \<Rightarrow> (case field_functions lib ss of Inl msg \<Rightarrow> Inl msg | Inr ps \<Rightarrow> Inr (p # ps)))"

text \<open>
  \<^verbatim>\<open>sfield_set = set(set([p[0] for p in field_functions]))\<close>: the field indices, each
  once. The order in which Python iterates over the set does not show in any result.
\<close>

definition sfield_set :: "(nat \<times> 'f fcn) list \<Rightarrow> nat list" where
  "sfield_set ffs = remdups (map fst ffs)"

subsection \<open>The closures of op_merge\<close>

type_synonym row = "string list"

text \<open>The variables shared by the closures.\<close>

record state =
  cmp_line :: "row option"
  aggregate_values :: "nat \<rightharpoonup> string list"

definition make_comparable :: "nat list \<Rightarrow> row \<Rightarrow> row" where
  "make_comparable sfs l = map (\<lambda>n. l ! n) (filter (\<lambda>n. n \<notin> set sfs) [0..<length l])"

text \<open>
  \<^verbatim>\<open>add_mergeable(l)\<close> appends to \<open>l\<close> in place; the model returns the extended list.
  A missing key of \<^verbatim>\<open>aggregate_values\<close> raises KeyError.
\<close>

fun add_mergeable ::
  "'f pylib \<Rightarrow> (nat \<times> 'f fcn) list \<Rightarrow> (nat \<rightharpoonup> string list) \<Rightarrow> row \<Rightarrow> error + row" where
  "add_mergeable lib [] av l = Inr l"
| "add_mergeable lib ((n, f) # ffs) av l =
     (case av n of
        None \<Rightarrow> Inl KeyError
      | Some vs \<Rightarrow>
          (case f vs of
             Inl e \<Rightarrow> Inl e
           | Inr v \<Rightarrow> add_mergeable lib ffs av (l @ [str lib v])))"

text \<open>The loop \<^verbatim>\<open>for n in sfield_set: aggregate_values[n] = [row[n]]\<close>.\<close>

fun reset_values :: "nat list \<Rightarrow> row \<Rightarrow> (nat \<rightharpoonup> string list) \<Rightarrow> error + (nat \<rightharpoonup> string list)" where
  "reset_values [] row av = Inr av"
| "reset_values (n # ns) row av =
     (if n < length row then reset_values ns row (av(n \<mapsto> [row ! n])) else Inl IndexError)"

definition reset_cmp_line :: "nat list \<Rightarrow> row \<Rightarrow> state \<Rightarrow> error + state" where
  "reset_cmp_line sfs row st =
     (case reset_values sfs row (aggregate_values st) of
        Inl e \<Rightarrow> Inl e
      | Inr av \<Rightarrow> Inr \<lparr>cmp_line = Some (make_comparable sfs row), aggregate_values = av\<rparr>)"

text \<open>The loop \<^verbatim>\<open>for n in sfield_set: aggregate_values[n].append(row[n])\<close>.\<close>

fun append_values :: "nat list \<Rightarrow> row \<Rightarrow> (nat \<rightharpoonup> string list) \<Rightarrow> error + (nat \<rightharpoonup> string list)" where
  "append_values [] row av = Inr av"
| "append_values (n # ns) row av =
     (case av n of
        None \<Rightarrow> Inl KeyError
      | Some vs \<Rightarrow>
          if n < length row then append_values ns row (av(n \<mapsto> vs @ [row ! n]))
          else Inl IndexError)"

text \<open>
  \<^verbatim>\<open>collect_and_aggregate(row)\<close>: the lines it prints on standard output, and the
  exception it raises or the new state. In the last branch \<^verbatim>\<open>printable\<close> is
  \<^verbatim>\<open>cmp_line\<close> itself, so \<^verbatim>\<open>add_mergeable\<close> extends \<^verbatim>\<open>cmp_line\<close> before
  \<^verbatim>\<open>reset_cmp_line\<close> replaces it.
\<close>

definition collect_and_aggregate ::
  "'f pylib \<Rightarrow> string \<Rightarrow> (nat \<times> 'f fcn) list \<Rightarrow> nat list \<Rightarrow> row \<Rightarrow> state
     \<Rightarrow> string list \<times> (error + state)" where
  "collect_and_aggregate lib delimiter ffs sfs row st =
     (case cmp_line st of
        None \<Rightarrow> ([], reset_cmp_line sfs row st)
      | Some cl \<Rightarrow>
          if make_comparable sfs row = cl then
            ([], case append_values sfs row (aggregate_values st) of
                   Inl e \<Rightarrow> Inl e
                 | Inr av \<Rightarrow> Inr (st\<lparr>aggregate_values := av\<rparr>))
          else
            (case add_mergeable lib ffs (aggregate_values st) cl of
               Inl e \<Rightarrow> ([], Inl e)
             | Inr printable \<Rightarrow>
                 ([join delimiter printable],
                  reset_cmp_line sfs row (st\<lparr>cmp_line := Some printable\<rparr>))))"

text \<open>
  \<^verbatim>\<open>csv_rows(filename, delim, fn)\<close> calls \<open>fn\<close> on every row in turn. Its input here
  is the sequence of rows that it hands to \<open>fn\<close>: what \<^verbatim>\<open>csv.reader\<close> yields, each
  field stripped. An exception ends the iteration; the lines printed so far stay.
\<close>

fun csv_rows ::
  "(row \<Rightarrow> state \<Rightarrow> string list \<times> (error + state)) \<Rightarrow> row list \<Rightarrow> state
     \<Rightarrow> string list \<times> (error + state)" where
  "csv_rows fn [] st = ([], Inr st)"
| "csv_rows fn (row # rows) st =
     (case fn row st of
        (out, Inl e) \<Rightarrow> (out, Inl e)
      | (out, Inr st') \<Rightarrow> (case csv_rows fn rows st' of (out', r) \<Rightarrow> (out @ out', r)))"

text \<open>How the run ends: normally (exit status 0) or by an exception (exit status 1).\<close>

datatype outcome = Done | Raised error

fun exit_status :: "outcome \<Rightarrow> nat" where
  "exit_status Done = 0"
| "exit_status (Raised e) = 1"

text \<open>
  \<^verbatim>\<open>fatal(s)\<close> prints the program's name and \<^verbatim>\<open>error:\<close> on standard error, prints
  \<open>s\<close> with a plain \<^verbatim>\<open>print(s)\<close>, that is on standard output, and exits with status 1.
  The result is the standard output and the way the run ends.
\<close>

definition fatal :: "string \<Rightarrow> string list \<times> outcome" where
  "fatal s = ([s], Raised SystemExit)"

text \<open>
  \<^verbatim>\<open>op_merge\<close>, from the parsed arguments on: the delimiter, the texts given to
  \<^verbatim>\<open>--field_function\<close> and the rows of the input. The result is the list of lines
  printed on standard output and the way the run ends.
\<close>

definition op_merge :: "'f pylib \<Rightarrow> string \<Rightarrow> string list \<Rightarrow> row list \<Rightarrow> string list \<times> outcome" where
  "op_merge lib delimiter args rows =
     (case field_functions lib args of
        Inl msg \<Rightarrow> fatal msg
      | Inr ffs \<Rightarrow>
          (case csv_rows (collect_and_aggregate lib delimiter ffs (sfield_set ffs)) rows
                  \<lparr>cmp_line = None, aggregate_values = Map.empty\<rparr> of
             (out, Inl e) \<Rightarrow> (out, Raised e)
           | (out, Inr st) \<Rightarrow>
               (case cmp_line st of
                  None \<Rightarrow> (out, Done)
                | Some cl \<Rightarrow>
                    (case add_mergeable lib ffs (aggregate_values st) cl of
                       Inl e \<Rightarrow> (out, Raised e)
                     | Inr l \<Rightarrow> (out @ [join delimiter l], Done)))))"

section \<open>Groups, as the specification describes them\<close>

text \<open>
  The specification's group: a maximal run of contiguous rows with the same key. \<open>runs k xs\<close>
  cuts \<open>xs\<close> into these runs, in order: a run is its first row and the rows after it
  that have the key of the first.
\<close>

function runs :: "('a \<Rightarrow> 'k) \<Rightarrow> 'a list \<Rightarrow> 'a list list" where
  "runs k [] = []"
| "runs k (x # xs) =
     (x # takeWhile (\<lambda>y. k y = k x) xs) # runs k (dropWhile (\<lambda>y. k y = k x) xs)"
  by pat_completeness auto
termination
  by (relation "measure (\<lambda>(k, xs). length xs)") (auto simp: length_dropWhile_le less_Suc_eq_le)

declare runs.simps [simp del]

text \<open>A non-empty list whose elements all have the key of the first.\<close>

definition homogeneous :: "('a \<Rightarrow> 'k) \<Rightarrow> 'a list \<Rightarrow> bool" where
  "homogeneous k g = (g \<noteq> [] \<and> list_all (\<lambda>x. k x = k (hd g)) g)"

text \<open>Every aggregated field index is a position of the row.\<close>

definition valid_row :: "nat list \<Rightarrow> row \<Rightarrow> bool" where
  "valid_row sfs row = list_all (\<lambda>n. n < length row) sfs"

text \<open>
  The specification's accumulators of a group: for every aggregated field index, the
  values of that field in the rows of the group, in order.
\<close>

definition accumulators :: "nat list \<Rightarrow> row list \<Rightarrow> (nat \<rightharpoonup> string list)" where
  "accumulators sfs g = (\<lambda>n. if n \<in> set sfs then Some (map (\<lambda>r. r ! n) g) else None)"

text \<open>The specification's GroupState of an open group: its key and its accumulators.\<close>

definition group_state :: "nat list \<Rightarrow> row list \<Rightarrow> state" where
  "group_state sfs g =
     \<lparr>cmp_line = Some (make_comparable sfs (hd g)), aggregate_values = accumulators sfs g\<rparr>"

text \<open>
  The specification's flush of a group: the key of the group, extended by
  \<open>add_mergeable\<close> on the accumulators of the group; then the line printed for it.
\<close>

definition flush_row :: "'f pylib \<Rightarrow> (nat \<times> 'f fcn) list \<Rightarrow> row list \<Rightarrow> error + row" where
  "flush_row lib ffs g =
     add_mergeable lib ffs (accumulators (sfield_set ffs) g) (make_comparable (sfield_set ffs) (hd g))"

definition flush :: "'f pylib \<Rightarrow> string \<Rightarrow> (nat \<times> 'f fcn) list \<Rightarrow> row list \<Rightarrow> error + string" where
  "flush lib d ffs g = (case flush_row lib ffs g of Inl e \<Rightarrow> Inl e | Inr l \<Rightarrow> Inr (join d l))"

text \<open>Flushing the groups in order, up to the first flush that raises.\<close>

fun flush_all :: "('g \<Rightarrow> error + string) \<Rightarrow> 'g list \<Rightarrow> string list \<times> outcome" where
  "flush_all fl [] = ([], Done)"
| "flush_all fl (g # gs) =
     (case fl g of
        Inl e \<Rightarrow> ([], Raised e)
      | Inr line \<Rightarrow> (case flush_all fl gs of (out, r) \<Rightarrow> (line # out, r)))"

text \<open>
  An instance of the library parameter for the examples, all of which use the text
  functions \<^verbatim>\<open>first\<close>, \<^verbatim>\<open>last\<close> and \<^verbatim>\<open>ignore\<close> only and never reach a numeric
  function: in it no text is a number.
\<close>

definition text_only :: "unit pylib" where
  "text_only = \<lparr>lib_float = (\<lambda>s. None), lib_str = (\<lambda>x. []),
     lib_sum = (\<lambda>xs. Inl ValueError), lib_min = (\<lambda>xs. Inl ValueError),
     lib_max = (\<lambda>xs. Inl ValueError), lib_mean = (\<lambda>xs. Inl ValueError),
     lib_median = (\<lambda>xs. Inl ValueError), lib_stdev = (\<lambda>xs. Inl ValueError)\<rparr>"

section \<open>The library, as far as the claims need it\<close>

subsection \<open>Floats and the standard deviation\<close>

text \<open>
  Modelled from the spec: Python's float, which is not code of this program. A float is a
  finite number, an infinity or NaN. The finite values are real numbers here: rounding and
  overflow are not modelled.
\<close>

datatype pyfloat = Finite real | PosInf | NegInf | NaN

text \<open>
  Modelled from the spec: the sum of two floats, with the rules of floating-point arithmetic
  for the infinities and NaN (NaN spreads, and the sum of the two infinities is NaN).
\<close>

fun fadd :: "pyfloat \<Rightarrow> pyfloat \<Rightarrow> pyfloat" where
  "fadd (Finite a) (Finite b) = Finite (a + b)"
| "fadd NaN y = NaN"
| "fadd x NaN = NaN"
| "fadd PosInf NegInf = NaN"
| "fadd NegInf PosInf = NaN"
| "fadd PosInf y = PosInf"
| "fadd x PosInf = PosInf"
| "fadd NegInf y = NegInf"
| "fadd x NegInf = NegInf"

text \<open>Modelled from the spec: the negative of a float.\<close>

fun fneg :: "pyfloat \<Rightarrow> pyfloat" where
  "fneg (Finite a) = Finite (- a)"
| "fneg PosInf = NegInf"
| "fneg NegInf = PosInf"
| "fneg NaN = NaN"

text \<open>Modelled from the spec: the difference of two floats.\<close>

definition fsub :: "pyfloat \<Rightarrow> pyfloat \<Rightarrow> pyfloat" where
  "fsub x y = fadd x (fneg y)"

text \<open>Modelled from the spec: the square of a float.\<close>

fun fsquare :: "pyfloat \<Rightarrow> pyfloat" where
  "fsquare (Finite a) = Finite (a * a)"
| "fsquare PosInf = PosInf"
| "fsquare NegInf = PosInf"
| "fsquare NaN = NaN"

text \<open>Modelled from the spec: a float divided by a positive count.\<close>

fun fdiv_nat :: "pyfloat \<Rightarrow> nat \<Rightarrow> pyfloat" where
  "fdiv_nat (Finite a) n = Finite (a / real n)"
| "fdiv_nat x n = x"

text \<open>Modelled from the spec: the square root of a float.\<close>

fun fsqrt :: "pyfloat \<Rightarrow> pyfloat" where
  "fsqrt (Finite a) = (if a < 0 then NaN else Finite (sqrt a))"
| "fsqrt PosInf = PosInf"
| "fsqrt NegInf = NaN"
| "fsqrt NaN = NaN"

text \<open>Modelled from the spec: the sum of a sequence of floats, from the left.\<close>

definition fsum :: "pyfloat list \<Rightarrow> pyfloat" where
  "fsum xs = foldl fadd (Finite 0) xs"

text \<open>
  Modelled from the spec: \<^verbatim>\<open>statistics.stdev\<close>, which is not code of this program, in the
  specification's words: the sample standard deviation, with Bessel's correction (the
  divisor is n - 1), which is not defined on fewer than two values. The library's own
  result on infinities and NaN depends on its version (NaN, or an exception); what the
  specification's formula gives there is NaN.
\<close>

definition stdev :: "pyfloat list \<Rightarrow> error + pyfloat pyval" where
  "stdev xs =
     (if length xs < 2 then Inl StatisticsError
      else let n = length xs;
               m = fdiv_nat (fsum xs) n;
               ss = fsum (map (\<lambda>x. fsquare (fsub x m)) xs)
           in Inr (PyFloat (fsqrt (fdiv_nat ss (n - 1)))))"

text \<open>
  Modelled from the spec: the parse of a field as a floating-point number, Python's
  \<^verbatim>\<open>float\<close>, on the texts \<^verbatim>\<open>inf\<close>, \<^verbatim>\<open>-inf\<close> and \<^verbatim>\<open>nan\<close> and on the decimal numerals of
  at most 15 digits, whose value a float holds exactly. Python's \<^verbatim>\<open>float\<close> accepts more
  texts (a sign, a fraction, an exponent): on those the result here is None too, and the
  theorems use the function only where it returns a value.
\<close>

definition py_float :: "string \<Rightarrow> pyfloat option" where
  "py_float s =
     (if s = ''inf'' then Some PosInf
      else if s = ''-inf'' then Some NegInf
      else if s = ''nan'' then Some NaN
      else if s \<noteq> [] \<and> list_all is_digit s \<and> length s \<le> 15
           then Some (Finite (real (int_of_digits s)))
      else None)"

text \<open>
  The instance of the library parameter for the examples of \<^verbatim>\<open>stdev\<close>: the parse and the
  standard deviation are the two functions above. The entry \<^verbatim>\<open>stdev\<close> of \<^verbatim>\<open>fcn_set\<close> uses
  no other function of the library; the others are left unspecified.
\<close>

definition float_lib :: "pyfloat pylib" where
  "float_lib = \<lparr>lib_float = py_float, lib_str = undefined, lib_sum = undefined,
     lib_min = undefined, lib_max = undefined, lib_mean = undefined,
     lib_median = undefined, lib_stdev = stdev\<rparr>"

subsection \<open>Reading the printed lines again\<close>

text \<open>
  Modelled from the spec: the white space that Python's \<^verbatim>\<open>str.strip()\<close> removes, among the
  characters up to 255: the characters 9 to 13 and 28 to 32, 133 and 160.
\<close>

definition is_space :: "char \<Rightarrow> bool" where
  "is_space c = (of_char c \<in> set [9, 10, 11, 12, 13, 28, 29, 30, 31, 32, 133, 160 :: nat])"

text \<open>
  Modelled from the spec: \<^verbatim>\<open>e.strip()\<close> in \<^verbatim>\<open>csv_rows\<close>, the field trimmed of surrounding
  white space.
\<close>

definition strip :: "string \<Rightarrow> string" where
  "strip s = rev (dropWhile is_space (rev (dropWhile is_space s)))"

text \<open>
  Modelled from the spec: the fields of one line of delimited text, for a line without
  quote characters and line breaks: the texts between the delimiters.
\<close>

fun split_fields :: "char \<Rightarrow> string \<Rightarrow> string list" where
  "split_fields c [] = [[]]"
| "split_fields c (x # xs) =
     (if x = c then [] # split_fields c xs
      else (case split_fields c xs of [] \<Rightarrow> [[x]] | f # fs \<Rightarrow> (x # f) # fs))"

text \<open>
  Modelled from the spec: the raw delimited-row reader, Python's \<^verbatim>\<open>csv.reader\<close> with a
  delimiter of one character, on lines without quote characters and line breaks: one row
  per line, and the row without fields for an empty line.
\<close>

definition csv_reader :: "char \<Rightarrow> string list \<Rightarrow> string list list" where
  "csv_reader c lines = map (\<lambda>line. if line = [] then [] else split_fields c line) lines"

text \<open>
  The rows that \<^verbatim>\<open>csv_rows\<close> hands to its function when the input holds the given lines:
  \<^verbatim>\<open>[e.strip() for e in row]\<close> for every row of the reader.
\<close>

definition read_rows :: "char \<Rightarrow> string list \<Rightarrow> row list" where
  "read_rows c lines = map (map strip) (csv_reader c lines)"


text \<open>
  A function repeats its result when, on the group of the one value that is the text of a
  result of its own, it returns a result with the same text.
\<close>

definition repeats :: "'f pylib \<Rightarrow> 'f fcn \<Rightarrow> bool" where
  "repeats lib f =
     (\<forall>vs v. f vs = Inr v \<longrightarrow> (\<exists>v'. f [str lib v] = Inr v' \<and> str lib v' = str lib v))"

section \<open>The runs of a list\<close>

lemma runs_homogeneous:
  assumes "homogeneous k g"
  shows "runs k g = [g]"
proof (cases g)
  case Nil with assms show ?thesis by (simp add: homogeneous_def)
next
  case (Cons x g')
  with assms have a: "\<forall>y\<in>set g'. k y = k x" by (simp add: homogeneous_def list_all_iff)
  have t: "takeWhile (\<lambda>y. k y = k x) g' = g'" using a by (simp add: takeWhile_eq_all_conv)
  have d: "dropWhile (\<lambda>y. k y = k x) g' = []" using a by simp
  show ?thesis unfolding Cons by (simp only: runs.simps t d)
qed

lemma runs_boundary:
  assumes "homogeneous k g" "k r \<noteq> k (hd g)"
  shows "runs k (g @ r # rows) = g # runs k (r # rows)"
proof (cases g)
  case Nil with assms show ?thesis by (simp add: homogeneous_def)
next
  case (Cons x g')
  with assms have a: "\<forall>y\<in>set g'. k y = k x" and b: "k r \<noteq> k x"
    by (simp_all add: homogeneous_def list_all_iff)
  have t: "takeWhile (\<lambda>y. k y = k x) (g' @ r # rows) = g'"
    using a b by (simp add: takeWhile_tail)
  have d: "dropWhile (\<lambda>y. k y = k x) (g' @ r # rows) = r # rows"
    using a b by (simp add: dropWhile_append3)
  have "runs k ((x # g') @ r # rows) = (x # g') # runs k (r # rows)"
    unfolding append_Cons runs.simps(2)[of k x "g' @ r # rows"] t d ..
  then show ?thesis unfolding Cons .
qed

lemma runs_eq_Nil: "runs k xs = [] \<longleftrightarrow> xs = []"
  by (cases xs) (simp_all add: runs.simps)


lemma takeWhile_homogeneous: "homogeneous k (x # takeWhile (\<lambda>y. k y = k x) xs)"
  unfolding homogeneous_def list_all_iff
  by (auto dest: set_takeWhileD)

lemma runs_all_homogeneous: "list_all (homogeneous k) (runs k xs)"
proof (induction k xs rule: runs.induct)
  case (1 k) show ?case by (simp add: runs.simps)
next
  case (2 k x xs)
  show ?case
    unfolding runs.simps list.pred_inject
    using takeWhile_homogeneous 2 by (rule conjI)
qed

section \<open>One step of the engine\<close>

lemma reset_values_eq:
  "reset_values ns row av =
     (if list_all (\<lambda>n. n < length row) ns
      then Inr (\<lambda>k. if k \<in> set ns then Some [row ! k] else av k) else Inl IndexError)"
proof (induction ns arbitrary: av)
  case Nil show ?case by simp
next
  case (Cons n ns)
  have e: "(\<lambda>k. if k \<in> set ns then Some [row ! k] else (av(n \<mapsto> [row ! n])) k)
         = (\<lambda>k. if k \<in> set (n # ns) then Some [row ! k] else av k)"
    by (rule ext) simp
  show ?case by (simp add: Cons.IH e del: set_simps)
qed

lemma append_values_eq:
  "distinct ns \<Longrightarrow> \<forall>n\<in>set ns. av n \<noteq> None \<Longrightarrow>
   append_values ns row av =
     (if list_all (\<lambda>n. n < length row) ns
      then Inr (\<lambda>k. if k \<in> set ns then Some (the (av k) @ [row ! k]) else av k)
      else Inl IndexError)"
proof (induction ns arbitrary: av)
  case Nil show ?case by simp
next
  case (Cons n ns)
  from Cons.prems obtain vs where vs: "av n = Some vs" by auto
  let ?av = "av(n \<mapsto> vs @ [row ! n])"
  have d: "distinct ns" and nn: "n \<notin> set ns" using Cons.prems by simp_all
  have "\<forall>m\<in>set ns. ?av m \<noteq> None" using Cons.prems by simp
  from Cons.IH[OF d this]
  have ih: "append_values ns row ?av =
     (if list_all (\<lambda>n. n < length row) ns
      then Inr (\<lambda>k. if k \<in> set ns then Some (the (?av k) @ [row ! k]) else ?av k)
      else Inl IndexError)" .
  have e: "(\<lambda>k. if k \<in> set ns then Some (the (?av k) @ [row ! k]) else ?av k)
         = (\<lambda>k. if k \<in> set (n # ns) then Some (the (av k) @ [row ! k]) else av k)"
    using nn vs by (intro ext) auto
  show ?case
    unfolding append_values.simps vs option.case ih e by simp
qed

lemma reset_accumulators:
  "reset_values sfs row (accumulators sfs g) =
     (if valid_row sfs row then Inr (accumulators sfs [row]) else Inl IndexError)"
proof -
  have e: "(\<lambda>k. if k \<in> set sfs then Some [row ! k] else accumulators sfs g k) = accumulators sfs [row]"
    by (rule ext) (simp add: accumulators_def)
  show ?thesis unfolding reset_values_eq e valid_row_def ..
qed

lemma reset_empty:
  "reset_values sfs row Map.empty =
     (if valid_row sfs row then Inr (accumulators sfs [row]) else Inl IndexError)"
proof -
  have e: "(\<lambda>k. if k \<in> set sfs then Some [row ! k] else Map.empty k) = accumulators sfs [row]"
    by (rule ext) (simp add: accumulators_def)
  show ?thesis unfolding reset_values_eq e valid_row_def ..
qed

lemma append_accumulators:
  assumes d: "distinct sfs"
  shows "append_values sfs row (accumulators sfs g) =
     (if valid_row sfs row then Inr (accumulators sfs (g @ [row])) else Inl IndexError)"
proof -
  have n: "\<forall>n\<in>set sfs. accumulators sfs g n \<noteq> None" by (simp add: accumulators_def)
  have e: "(\<lambda>k. if k \<in> set sfs then Some (the (accumulators sfs g k) @ [row ! k]) else accumulators sfs g k)
      = accumulators sfs (g @ [row])"
    by (rule ext) (simp add: accumulators_def)
  show ?thesis
    unfolding append_values_eq[OF d n] e valid_row_def ..
qed

lemma step_empty:
  "collect_and_aggregate lib d ffs sfs row \<lparr>cmp_line = None, aggregate_values = Map.empty\<rparr> =
     ([], if valid_row sfs row then Inr (group_state sfs [row]) else Inl IndexError)"
  by (simp add: collect_and_aggregate_def reset_cmp_line_def reset_empty group_state_def)

lemma step_same:
  assumes "g \<noteq> []" "distinct sfs" "make_comparable sfs row = make_comparable sfs (hd g)"
  shows "collect_and_aggregate lib d ffs sfs row (group_state sfs g) =
     ([], if valid_row sfs row then Inr (group_state sfs (g @ [row])) else Inl IndexError)"
  using assms(1,3)
  by (simp add: collect_and_aggregate_def group_state_def append_accumulators[OF assms(2)])

lemma step_other:
  assumes "make_comparable (sfield_set ffs) row \<noteq> make_comparable (sfield_set ffs) (hd g)"
  shows "collect_and_aggregate lib d ffs (sfield_set ffs) row (group_state (sfield_set ffs) g) =
     (case flush lib d ffs g of
        Inl e \<Rightarrow> ([], Inl e)
      | Inr line \<Rightarrow>
          ([line], if valid_row (sfield_set ffs) row then Inr (group_state (sfield_set ffs) [row])
                   else Inl IndexError))"
  using assms
  by (simp add: collect_and_aggregate_def group_state_def flush_def flush_row_def
      reset_cmp_line_def reset_accumulators split: sum.split)

section \<open>The run as the flush of its groups\<close>

lemma homogeneous_single: "homogeneous k [r]"
  by (simp add: homogeneous_def)

lemma homogeneous_snoc: "homogeneous k g \<Longrightarrow> k r = k (hd g) \<Longrightarrow> homogeneous k (g @ [r])"
  by (cases g) (simp_all add: homogeneous_def)

lemma homogeneous_nonempty: "homogeneous k g \<Longrightarrow> g \<noteq> []"
  by (simp add: homogeneous_def)

lemma distinct_sfield_set: "distinct (sfield_set ffs)"
  by (simp add: sfield_set_def)

lemma engine:
  assumes "homogeneous (make_comparable (sfield_set ffs)) g"
    and "list_all (valid_row (sfield_set ffs)) rows"
  shows "csv_rows (collect_and_aggregate lib d ffs (sfield_set ffs)) rows
           (group_state (sfield_set ffs) g) =
     (case flush_all (flush lib d ffs)
             (butlast (runs (make_comparable (sfield_set ffs)) (g @ rows))) of
        (out, Done) \<Rightarrow>
          (out, Inr (group_state (sfield_set ffs)
                       (last (runs (make_comparable (sfield_set ffs)) (g @ rows)))))
      | (out, Raised e) \<Rightarrow> (out, Inl e))"
  using assms
proof (induction rows arbitrary: g)
  case Nil
  then show ?case by (simp add: runs_homogeneous)
next
  case (Cons r rows)
  let ?sfs = "sfield_set ffs"
  let ?K = "make_comparable ?sfs"
  let ?step = "collect_and_aggregate lib d ffs ?sfs"
  from Cons.prems have vr: "valid_row ?sfs r" and vrows: "list_all (valid_row ?sfs) rows"
    by simp_all
  have gne: "g \<noteq> []" using Cons.prems(1) by (rule homogeneous_nonempty)
  show ?case
  proof (cases "?K r = ?K (hd g)")
    case True
    have h: "homogeneous ?K (g @ [r])" using Cons.prems(1) True by (rule homogeneous_snoc)
    have s: "?step r (group_state ?sfs g) = ([], Inr (group_state ?sfs (g @ [r])))"
      using step_same[OF gne distinct_sfield_set True] vr by simp
    have ih1: "csv_rows ?step rows (group_state ?sfs (g @ [r])) =
       (case flush_all (flush lib d ffs) (butlast (runs ?K (g @ r # rows))) of
          (out, Done) \<Rightarrow> (out, Inr (group_state ?sfs (last (runs ?K (g @ r # rows)))))
        | (out, Raised e) \<Rightarrow> (out, Inl e))"
      using Cons.IH[OF h vrows] unfolding append_assoc append_Cons append_Nil .
    obtain out res where fa: "flush_all (flush lib d ffs) (butlast (runs ?K (g @ r # rows))) = (out, res)"
      by (cases "flush_all (flush lib d ffs) (butlast (runs ?K (g @ r # rows)))")
    show ?thesis
      by (cases res) (simp_all add: s ih1 fa)
  next
    case False
    have rb: "runs ?K (g @ r # rows) = g # runs ?K (r # rows)"
      using Cons.prems(1) False by (rule runs_boundary)
    have ne: "runs ?K (r # rows) \<noteq> []" by (simp add: runs_eq_Nil)
    have bl: "butlast (runs ?K (g @ r # rows)) = g # butlast (runs ?K (r # rows))"
      and la: "last (runs ?K (g @ r # rows)) = last (runs ?K (r # rows))"
      using ne by (simp_all add: rb)
    have ih: "csv_rows ?step rows (group_state ?sfs [r]) =
       (case flush_all (flush lib d ffs) (butlast (runs ?K (r # rows))) of
          (out, Done) \<Rightarrow> (out, Inr (group_state ?sfs (last (runs ?K (r # rows)))))
        | (out, Raised e) \<Rightarrow> (out, Inl e))"
      using Cons.IH[OF homogeneous_single vrows, of r] unfolding append_Cons append_Nil .
    show ?thesis
    proof (cases "flush lib d ffs g")
      case (Inl e)
      have "?step r (group_state ?sfs g) = ([], Inl e)"
        using step_other[OF False, of lib d] Inl by simp
      then show ?thesis unfolding bl la by (simp add: Inl)
    next
      case (Inr line)
      have s: "?step r (group_state ?sfs g) = ([line], Inr (group_state ?sfs [r]))"
        using step_other[OF False, of lib d] Inr vr by simp
      obtain out res where fa: "flush_all (flush lib d ffs) (butlast (runs ?K (r # rows))) = (out, res)"
        by (cases "flush_all (flush lib d ffs) (butlast (runs ?K (r # rows)))")
      show ?thesis unfolding bl la
        by (cases res) (simp_all add: s ih fa Inr)
    qed
  qed
qed

lemma flush_all_snoc:
  "flush_all fl (gs @ [g]) =
     (case flush_all fl gs of
        (out, Done) \<Rightarrow> (case fl g of Inl e \<Rightarrow> (out, Raised e) | Inr line \<Rightarrow> (out @ [line], Done))
      | (out, Raised e) \<Rightarrow> (out, Raised e))"
proof (induction gs)
  case Nil show ?case by (simp split: sum.split)
next
  case (Cons a gs)
  obtain out res where fa: "flush_all fl gs = (out, res)" by (cases "flush_all fl gs")
  show ?case using Cons
    by (cases "fl a"; cases res; cases "fl g") (simp_all add: fa)
qed

lemma final_flush:
  "add_mergeable lib ffs (aggregate_values (group_state (sfield_set ffs) g))
       (make_comparable (sfield_set ffs) (hd g)) = flush_row lib ffs g"
  by (simp add: group_state_def flush_row_def)

lemma cmp_line_group_state:
  "cmp_line (group_state sfs g) = Some (make_comparable sfs (hd g))"
  by (simp add: group_state_def)

lemma op_merge_valid:
  assumes ffs: "field_functions lib args = Inr ffs"
    and valid: "list_all (valid_row (sfield_set ffs)) rows"
  shows "op_merge lib d args rows =
           flush_all (flush lib d ffs) (runs (make_comparable (sfield_set ffs)) rows)"
proof (cases rows)
  case Nil
  then show ?thesis by (simp add: op_merge_def ffs runs.simps)
next
  case (Cons r rs)
  let ?sfs = "sfield_set ffs"
  let ?K = "make_comparable ?sfs"
  let ?step = "collect_and_aggregate lib d ffs ?sfs"
  let ?R = "runs ?K (r # rs)"
  from valid Cons have vr: "valid_row ?sfs r" and vrs: "list_all (valid_row ?sfs) rs"
    by simp_all
  have ne: "?R \<noteq> []" by (simp add: runs_eq_Nil)
  have e: "csv_rows ?step rs (group_state ?sfs [r]) =
       (case flush_all (flush lib d ffs) (butlast ?R) of
          (out, Done) \<Rightarrow> (out, Inr (group_state ?sfs (last ?R)))
        | (out, Raised e) \<Rightarrow> (out, Inl e))"
    using engine[OF homogeneous_single vrs, of lib d r] unfolding append_Cons append_Nil .
  have c: "csv_rows ?step (r # rs) \<lparr>cmp_line = None, aggregate_values = Map.empty\<rparr> =
       csv_rows ?step rs (group_state ?sfs [r])"
    by (simp add: step_empty vr split: prod.split)
  obtain out res where fa: "flush_all (flush lib d ffs) (butlast ?R) = (out, res)"
    by (cases "flush_all (flush lib d ffs) (butlast ?R)")
  have "flush_all (flush lib d ffs) ?R = flush_all (flush lib d ffs) (butlast ?R @ [last ?R])"
    using ne by simp
  also have "\<dots> = (case res of
        Done \<Rightarrow> (case flush lib d ffs (last ?R) of
                   Inl e \<Rightarrow> (out, Raised e) | Inr line \<Rightarrow> (out @ [line], Done))
      | Raised e \<Rightarrow> (out, Raised e))"
    unfolding flush_all_snoc fa by simp
  finally have rhs: "flush_all (flush lib d ffs) ?R = (case res of
        Done \<Rightarrow> (case flush lib d ffs (last ?R) of
                   Inl e \<Rightarrow> (out, Raised e) | Inr line \<Rightarrow> (out @ [line], Done))
      | Raised e \<Rightarrow> (out, Raised e))" .
  have lhs: "op_merge lib d args (r # rs) = (case res of
        Done \<Rightarrow> (case flush lib d ffs (last ?R) of
                   Inl e \<Rightarrow> (out, Raised e) | Inr line \<Rightarrow> (out @ [line], Done))
      | Raised e \<Rightarrow> (out, Raised e))"
    unfolding op_merge_def ffs sum.case c e fa
    by (cases res) (simp_all add: cmp_line_group_state final_flush flush_def split: sum.split)
  show ?thesis unfolding Cons lhs rhs ..
qed

lemma step_Inr:
  assumes "g \<noteq> []"
    and "collect_and_aggregate lib d ffs (sfield_set ffs) r (group_state (sfield_set ffs) g) = (out, Inr st)"
  shows "valid_row (sfield_set ffs) r"
proof (cases "make_comparable (sfield_set ffs) r = make_comparable (sfield_set ffs) (hd g)")
  case True
  show ?thesis
    using assms(2) unfolding step_same[OF assms(1) distinct_sfield_set True]
    by (simp split: if_splits)
next
  case False
  show ?thesis
    using assms(2) unfolding step_other[OF False]
    by (simp split: sum.splits if_splits)
qed

lemma csv_rows_Cons_Inr:
  assumes "csv_rows fn (r # rows) st = (out, Inr st')"
  shows "\<exists>o1 st1 o2. fn r st = (o1, Inr st1) \<and> csv_rows fn rows st1 = (o2, Inr st') \<and> out = o1 @ o2"
proof -
  obtain o1 r1 where a: "fn r st = (o1, r1)" by (cases "fn r st")
  show ?thesis
  proof (cases r1)
    case (Inl e) with assms a show ?thesis by simp
  next
    case (Inr st1)
    obtain o2 r2 where b: "csv_rows fn rows st1 = (o2, r2)" by (cases "csv_rows fn rows st1")
    with assms a Inr show ?thesis by simp
  qed
qed

lemma csv_rows_open_valid:
  assumes "homogeneous (make_comparable (sfield_set ffs)) g"
    and "csv_rows (collect_and_aggregate lib d ffs (sfield_set ffs)) rows
           (group_state (sfield_set ffs) g) = (out, Inr st)"
  shows "list_all (valid_row (sfield_set ffs)) rows"
  using assms
proof (induction rows arbitrary: g out)
  case Nil show ?case by simp
next
  case (Cons r rows)
  let ?sfs = "sfield_set ffs"
  let ?K = "make_comparable ?sfs"
  have gne: "g \<noteq> []" using Cons.prems(1) by (rule homogeneous_nonempty)
  from csv_rows_Cons_Inr[OF Cons.prems(2)] obtain o1 st1 o2 where
    s1: "collect_and_aggregate lib d ffs ?sfs r (group_state ?sfs g) = (o1, Inr st1)"
    and s2: "csv_rows (collect_and_aggregate lib d ffs ?sfs) rows st1 = (o2, Inr st)"
    by blast
  have vr: "valid_row ?sfs r" using gne s1 by (rule step_Inr)
  show ?case
  proof (cases "?K r = ?K (hd g)")
    case True
    have "st1 = group_state ?sfs (g @ [r])"
      using s1 vr unfolding step_same[OF gne distinct_sfield_set True] by simp
    with s2 Cons.IH[OF homogeneous_snoc[OF Cons.prems(1) True]] vr show ?thesis by simp
  next
    case False
    have "st1 = group_state ?sfs [r]"
      using s1 vr unfolding step_other[OF False] by (simp split: sum.splits)
    with s2 Cons.IH[OF homogeneous_single] vr show ?thesis by simp
  qed
qed

lemma csv_rows_init:
  assumes "csv_rows (collect_and_aggregate lib d ffs (sfield_set ffs)) rows
           \<lparr>cmp_line = None, aggregate_values = Map.empty\<rparr> = (out, Inr st)"
  shows "list_all (valid_row (sfield_set ffs)) rows \<and>
         (case rows of
            [] \<Rightarrow> st = \<lparr>cmp_line = None, aggregate_values = Map.empty\<rparr>
          | _ # _ \<Rightarrow> st = group_state (sfield_set ffs)
                            (last (runs (make_comparable (sfield_set ffs)) rows)))"
proof (cases rows)
  case Nil with assms show ?thesis by simp
next
  case (Cons r rs)
  let ?sfs = "sfield_set ffs"
  from csv_rows_Cons_Inr[OF assms[unfolded Cons]] obtain o1 st1 o2 where
    s1: "collect_and_aggregate lib d ffs ?sfs r \<lparr>cmp_line = None, aggregate_values = Map.empty\<rparr> = (o1, Inr st1)"
    and s2: "csv_rows (collect_and_aggregate lib d ffs ?sfs) rs st1 = (o2, Inr st)"
    by blast
  have vr: "valid_row ?sfs r" and st1: "st1 = group_state ?sfs [r]"
    using s1 unfolding step_empty by (simp_all split: if_splits)
  have vrs: "list_all (valid_row ?sfs) rs"
    using csv_rows_open_valid[OF homogeneous_single s2[unfolded st1]] .
  have "st = group_state ?sfs (last (runs (make_comparable ?sfs) (r # rs)))"
    using s2[unfolded st1] engine[OF homogeneous_single vrs, of lib d r]
    by (simp split: prod.splits outcome.splits)
  with vr vrs Cons show ?thesis by simp
qed

lemma op_merge_Done_valid:
  assumes "field_functions lib args = Inr ffs"
    and "op_merge lib d args rows = (out, Done)"
  shows "list_all (valid_row (sfield_set ffs)) rows"
proof -
  obtain o1 r1 where c: "csv_rows (collect_and_aggregate lib d ffs (sfield_set ffs)) rows
           \<lparr>cmp_line = None, aggregate_values = Map.empty\<rparr> = (o1, r1)"
    by (cases "csv_rows (collect_and_aggregate lib d ffs (sfield_set ffs)) rows
           \<lparr>cmp_line = None, aggregate_values = Map.empty\<rparr>")
  show ?thesis
  proof (cases r1)
    case (Inl e)
    with assms c show ?thesis by (simp add: op_merge_def)
  next
    case (Inr st)
    with c csv_rows_init show ?thesis by blast
  qed
qed

lemma flush_all_Done:
  "flush_all fl gs = (out, Done) \<longleftrightarrow> list_all2 (\<lambda>line g. fl g = Inr line) out gs"
proof (induction gs arbitrary: out)
  case Nil show ?case by auto
next
  case (Cons g gs)
  obtain o2 res where fa: "flush_all fl gs = (o2, res)" by (cases "flush_all fl gs")
  show ?case
  proof (cases "fl g")
    case (Inl e) then show ?thesis by (auto simp: list_all2_Cons2)
  next
    case (Inr line)
    show ?thesis by (auto simp: list_all2_Cons2 Cons[symmetric] fa Inr)
  qed
qed

lemma op_merge_Done:
  assumes "field_functions lib args = Inr ffs"
    and "op_merge lib d args rows = (out, Done)"
  shows "list_all2 (\<lambda>line g. flush lib d ffs g = Inr line) out
           (runs (make_comparable (sfield_set ffs)) rows)"
proof -
  have "flush_all (flush lib d ffs) (runs (make_comparable (sfield_set ffs)) rows) = (out, Done)"
    using op_merge_valid[OF assms(1) op_merge_Done_valid[OF assms], of d] assms(2) by simp
  then show ?thesis by (simp only: flush_all_Done)
qed

lemma add_mergeable_Inr:
  "add_mergeable lib ffs av l = Inr l' \<longleftrightarrow>
     (\<exists>vals. list_all2 (\<lambda>(n, f) v. \<exists>vs. av n = Some vs \<and> f vs = Inr v) ffs vals \<and>
             l' = l @ map (str lib) vals)"
proof (induction ffs arbitrary: l)
  case Nil show ?case by auto
next
  case (Cons p ffs)
  obtain n f where p: "p = (n, f)" by (cases p)
  show ?case
  proof (cases "av n")
    case None then show ?thesis by (simp add: p list_all2_Cons1)
  next
    case (Some vs)
    show ?thesis
    proof (cases "f vs")
      case (Inl e) then show ?thesis by (simp add: p Some list_all2_Cons1)
    next
      case (Inr v)
      show ?thesis
        by (auto simp: p Some Inr Cons.IH list_all2_Cons1)
    qed
  qed
qed

lemma make_comparable_nths: "make_comparable sfs l = nths l (- set sfs)"
proof -
  have "map ((!) l) (filter P [0..<length l]) = nths l {n. P n}" for P
  proof (induction l arbitrary: P rule: rev_induct)
    case Nil show ?case by simp
  next
    case (snoc x xs)
    have "map ((!) (xs @ [x])) (filter P [0..<length xs]) = map ((!) xs) (filter P [0..<length xs])"
      by (rule map_cong) (auto simp: nth_append)
    then show ?case using snoc[of P] by (simp add: nths_append)
  qed
  from this[of "\<lambda>n. n \<notin> set sfs"] show ?thesis
    by (simp add: make_comparable_def Compl_eq)
qed




section \<open>What a flush prints\<close>

lemmas parse_simps = ff_def re_search_def fcn_set_def is_digit_def is_lower_def
  int_of_digits_def digit_value_def

lemma flush_Inr:
  "flush lib d ffs g = Inr line \<longleftrightarrow> (\<exists>l. flush_row lib ffs g = Inr l \<and> line = join d l)"
  by (cases "flush_row lib ffs g") (auto simp: flush_def)

lemma flush_row_Inr:
  "flush_row lib ffs g = Inr l \<longleftrightarrow>
     (\<exists>vals. list_all2 (\<lambda>(n, f) v. f (map (\<lambda>r. r ! n) g) = Inr v) ffs vals \<and>
             l = make_comparable (sfield_set ffs) (hd g) @ map (str lib) vals)"
proof -
  have "list_all2 (\<lambda>(n, f) v. \<exists>vs. accumulators (sfield_set ffs) g n = Some vs \<and> f vs = Inr v) ffs vals
      \<longleftrightarrow> list_all2 (\<lambda>(n, f) v. f (map (\<lambda>r. r ! n) g) = Inr v) ffs vals" for vals
  proof (rule list.rel_cong[OF refl refl])
    fix p v assume "p \<in> set ffs"
    then have "fst p \<in> set (sfield_set ffs)" by (simp add: sfield_set_def)
    then show "(case p of (n, f) \<Rightarrow> \<lambda>v. \<exists>vs. accumulators (sfield_set ffs) g n = Some vs \<and> f vs = Inr v) v
        = (case p of (n, f) \<Rightarrow> \<lambda>v. f (map (\<lambda>r. r ! n) g) = Inr v) v"
      by (cases p) (simp add: accumulators_def)
  qed
  then show ?thesis unfolding flush_row_def add_mergeable_Inr by simp
qed

lemma set_sfield_set: "set (sfield_set ffs) = set (map fst ffs)"
  by (simp add: sfield_set_def)

section \<open>The lines printed before an exception\<close>

lemma flush_all_prefix:
  "flush_all fl gs = (out, res) \<Longrightarrow>
     list_all2 (\<lambda>line g. fl g = Inr line) out (take (length out) gs)"
proof (induction gs arbitrary: out res)
  case Nil then show ?case by simp
next
  case (Cons g gs)
  show ?case
  proof (cases "fl g")
    case (Inl e) with Cons.prems show ?thesis by simp
  next
    case (Inr line)
    obtain o2 r2 where fa: "flush_all fl gs = (o2, r2)" by (cases "flush_all fl gs")
    from Cons.prems Inr fa have out: "out = line # o2" by simp
    from Cons.IH[OF fa] show ?thesis by (simp add: out Inr)
  qed
qed

lemma csv_rows_prefix:
  assumes "homogeneous (make_comparable (sfield_set ffs)) g"
    and "csv_rows (collect_and_aggregate lib d ffs (sfield_set ffs)) rows
           (group_state (sfield_set ffs) g) = (out, res)"
  shows "list_all2 (\<lambda>line g'. flush lib d ffs g' = Inr line) out
           (take (length out) (runs (make_comparable (sfield_set ffs)) (g @ rows)))"
  using assms
proof (induction rows arbitrary: g out res)
  case Nil then show ?case by simp
next
  case (Cons r rows)
  let ?sfs = "sfield_set ffs"
  let ?K = "make_comparable ?sfs"
  let ?step = "collect_and_aggregate lib d ffs ?sfs"
  let ?P = "\<lambda>line g'. flush lib d ffs g' = Inr line"
  have gne: "g \<noteq> []" using Cons.prems(1) by (rule homogeneous_nonempty)
  show ?case
  proof (cases "?K r = ?K (hd g)")
    case True
    note s = step_same[OF gne distinct_sfield_set True, of lib d ffs]
    show ?thesis
    proof (cases "valid_row ?sfs r")
      case False
      with Cons.prems(2) s have "out = []" by simp
      then show ?thesis by simp
    next
      case v: True
      have h: "homogeneous ?K (g @ [r])" using Cons.prems(1) True by (rule homogeneous_snoc)
      obtain o2 r2 where c: "csv_rows ?step rows (group_state ?sfs (g @ [r])) = (o2, r2)"
        by (cases "csv_rows ?step rows (group_state ?sfs (g @ [r]))")
      from Cons.prems(2) s v c have out: "out = o2" by simp
      from Cons.IH[OF h c] show ?thesis unfolding out append_assoc append_Cons append_Nil .
    qed
  next
    case False
    have rb: "runs ?K (g @ r # rows) = g # runs ?K (r # rows)"
      using Cons.prems(1) False by (rule runs_boundary)
    note s = step_other[OF False, of lib d]
    show ?thesis
    proof (cases "flush lib d ffs g")
      case (Inl e)
      with Cons.prems(2) s have "out = []" by simp
      then show ?thesis by simp
    next
      case (Inr line)
      show ?thesis
      proof (cases "valid_row ?sfs r")
        case False
        with Cons.prems(2) s Inr have "out = [line]" by simp
        then show ?thesis by (simp add: rb Inr)
      next
        case v: True
        obtain o2 r2 where c: "csv_rows ?step rows (group_state ?sfs [r]) = (o2, r2)"
          by (cases "csv_rows ?step rows (group_state ?sfs [r])")
        from Cons.prems(2) s Inr v c have out: "out = line # o2" by simp
        from Cons.IH[OF homogeneous_single c]
        have "list_all2 ?P o2 (take (length o2) (runs ?K (r # rows)))"
          unfolding append_Cons append_Nil .
        then show ?thesis by (simp add: out rb Inr)
      qed
    qed
  qed
qed

lemma op_merge_prefix:
  assumes ffs: "field_functions lib args = Inr ffs"
    and om: "op_merge lib d args rows = (out, res)"
  shows "list_all2 (\<lambda>line g. flush lib d ffs g = Inr line) out
           (take (length out) (runs (make_comparable (sfield_set ffs)) rows))"
proof (cases "list_all (valid_row (sfield_set ffs)) rows")
  case True
  from om show ?thesis unfolding op_merge_valid[OF ffs True] by (rule flush_all_prefix)
next
  case False
  let ?sfs = "sfield_set ffs"
  let ?step = "collect_and_aggregate lib d ffs ?sfs"
  let ?init = "\<lparr>cmp_line = None, aggregate_values = Map.empty\<rparr>"
  from False obtain r rs where rows: "rows = r # rs" by (cases rows) simp_all
  obtain o1 r1 where c: "csv_rows ?step rows ?init = (o1, r1)"
    by (cases "csv_rows ?step rows ?init")
  have "\<exists>e. r1 = Inl e"
  proof (cases r1)
    case (Inr st)
    with c csv_rows_init[of lib d ffs rows o1 st] False show ?thesis by simp
  qed simp
  then obtain e where r1: "r1 = Inl e" ..
  from om c r1 have out: "out = o1" by (simp add: op_merge_def ffs)
  show ?thesis
  proof (cases "valid_row ?sfs r")
    case False
    with c rows have "o1 = []" by (simp add: step_empty)
    with out show ?thesis by simp
  next
    case True
    obtain o2 r2 where c2: "csv_rows ?step rs (group_state ?sfs [r]) = (o2, r2)"
      by (cases "csv_rows ?step rs (group_state ?sfs [r])")
    from c rows True c2 have "o1 = o2" by (simp add: step_empty)
    with csv_rows_prefix[OF homogeneous_single c2] out rows show ?thesis by simp
  qed
qed

section \<open>The standard deviation of a value and itself\<close>

lemma stdev_pair_finite: "stdev [Finite x, Finite x] = Inr (PyFloat (Finite 0))"
  by (simp add: stdev_def fsum_def fsub_def Let_def)

section \<open>Reading the printed lines\<close>


lemma split_fields_nonempty: "split_fields c s \<noteq> []"
  by (induction s) (simp_all split: list.split)








lemma repeats_last: "repeats lib fcn_last"
  by (auto simp: repeats_def fcn_last_def split: if_splits)


section \<open>Bindings on the last columns\<close>







section \<open>The claims\<close>

text \<open>
  C1. A run of \<^verbatim>\<open>op_merge\<close> that ends without an exception prints exactly one line per
  maximal run of contiguous rows with equal comparable keys, in the order of the input: the
  output has as many lines as the input has such runs, and each line starts with the key of
  its run. On an empty input nothing is printed.
\<close>

theorem merge_one_row_per_run:
  assumes "field_functions lib args = Inr ffs"
    and "op_merge lib d args rows = (out, Done)"
  shows "length out = length (runs (make_comparable (sfield_set ffs)) rows) \<and>
         list_all2 (\<lambda>line g. \<exists>vals. line = join d (make_comparable (sfield_set ffs) (hd g) @ vals))
           out (runs (make_comparable (sfield_set ffs)) rows) \<and>
         op_merge lib d args [] = ([], Done)"
proof -
  let ?R = "runs (make_comparable (sfield_set ffs)) rows"
  have a: "list_all2 (\<lambda>line g. flush lib d ffs g = Inr line) out ?R"
    using assms by (rule op_merge_Done)
  then have l: "length out = length ?R" by (rule list_all2_lengthD)
  have b: "\<exists>vals. line = join d (make_comparable (sfield_set ffs) (hd g) @ vals)"
    if "flush lib d ffs g = Inr line" for line g
    using that unfolding flush_Inr flush_row_Inr by blast
  have c: "list_all2 (\<lambda>line g. \<exists>vals. line = join d (make_comparable (sfield_set ffs) (hd g) @ vals)) out ?R"
    using a b by (rule list_all2_mono)
  have e: "op_merge lib d args [] = ([], Done)"
    by (simp add: op_merge_def assms(1))
  from l c e show ?thesis by (intro conjI)
qed

theorem merge_one_row_per_run_witness:
  "field_functions text_only [''1:last''] = Inr [(1, fcn_last)] \<and>
   op_merge text_only '','' [''1:last'']
     [[''a'', ''1''], [''a'', ''2''], [''b'', ''3''], [''a'', ''4'']] = ([''a,2'', ''b,3'', ''a,4''], Done) \<and>
   runs (make_comparable (sfield_set [(1, fcn_last :: unit fcn)]))
     [[''a'', ''1''], [''a'', ''2''], [''b'', ''3''], [''a'', ''4'']] =
     [[[''a'', ''1''], [''a'', ''2'']], [[''b'', ''3'']], [[''a'', ''4'']]] \<and>
   length [''a,2'', ''b,3'', ''a,4''] =
     length (runs (make_comparable (sfield_set [(1, fcn_last :: unit fcn)]))
       [[''a'', ''1''], [''a'', ''2''], [''b'', ''3''], [''a'', ''4'']])"
proof -
  have h1: "field_functions text_only [''1:last''] = Inr [(1, fcn_last)]"
    by (simp add: parse_simps)
  have h2: "op_merge text_only '','' [''1:last'']
     [[''a'', ''1''], [''a'', ''2''], [''b'', ''3''], [''a'', ''4'']] = ([''a,2'', ''b,3'', ''a,4''], Done)"
    by code_simp
  have h3: "runs (make_comparable (sfield_set [(1, fcn_last :: unit fcn)]))
     [[''a'', ''1''], [''a'', ''2''], [''b'', ''3''], [''a'', ''4'']] =
     [[[''a'', ''1''], [''a'', ''2'']], [[''b'', ''3'']], [[''a'', ''4'']]]"
    by code_simp
  have c: "length [''a,2'', ''b,3'', ''a,4''] =
     length (runs (make_comparable (sfield_set [(1, fcn_last :: unit fcn)]))
       [[''a'', ''1''], [''a'', ''2''], [''b'', ''3''], [''a'', ''4'']])"
    using merge_one_row_per_run[OF h1 h2] by (rule conjunct1)
  show ?thesis by (intro conjI h1 h2 h3 c)
qed

text \<open>
  C2. The claim is that a binding of \<^verbatim>\<open>ignore\<close> adds no field to the printed row. The
  function returns \<^verbatim>\<open>None\<close>, and \<^verbatim>\<open>add_mergeable\<close> appends \<^verbatim>\<open>str(None)\<close>, the text
  \<^verbatim>\<open>None\<close>, as it appends the result of every other function: the two rows below, which
  differ in the ignored field only, are printed as one line with a second field \<^verbatim>\<open>None\<close>.
\<close>

theorem ignore_appends_None:
  "op_merge text_only '','' [''1:ignore''] [[''a'', ''x''], [''a'', ''y'']] = ([''a,None''], Done)"
  by code_simp

text \<open>
  C3, as the specification states it, fails: with two bindings of the field index 1 the
  printed row has the results of both, and differs from the row printed with the last
  binding alone.
\<close>

theorem duplicate_index_counterexample:
  "op_merge text_only '','' [''1:first'', ''1:last''] [[''a'', ''1''], [''a'', ''2'']]
     = ([''a,1,2''], Done) \<and>
   op_merge text_only '','' [''1:last''] [[''a'', ''1''], [''a'', ''2'']]
     = ([''a,2''], Done) \<and>
   op_merge text_only '','' [''1:first'', ''1:last''] [[''a'', ''1''], [''a'', ''2'']]
     \<noteq> op_merge text_only '','' [''1:last''] [[''a'', ''1''], [''a'', ''2'']]"
  by code_simp

text \<open>
  C3, amended. \<^verbatim>\<open>field_functions\<close> is a list of pairs, and \<^verbatim>\<open>add_mergeable\<close> walks
  it: whenever it returns, it has appended exactly one field for every binding, in the order
  of the bindings, bindings that name the same field index included; the field of a binding
  is the text of its function's result on the values accumulated for its index.
\<close>

theorem every_binding_contributes:
  assumes "add_mergeable lib ffs av l = Inr l'"
  shows "length l' = length l + length ffs \<and>
         (\<exists>vals. list_all2 (\<lambda>(n, f) v. \<exists>vs. av n = Some vs \<and> f vs = Inr v) ffs vals \<and>
                 l' = l @ map (str lib) vals)"
proof -
  from assms obtain vals where
    v: "list_all2 (\<lambda>(n, f) v. \<exists>vs. av n = Some vs \<and> f vs = Inr v) ffs vals"
    and l': "l' = l @ map (str lib) vals"
    unfolding add_mergeable_Inr by blast
  from v have "length ffs = length vals" by (rule list_all2_lengthD)
  with l' have "length l' = length l + length ffs" by simp
  with v l' show ?thesis by blast
qed

theorem every_binding_contributes_witness:
  "add_mergeable text_only [(1, fcn_first), (1, fcn_last)] [1 \<mapsto> [''1'', ''2'']] [''a'']
     = Inr [''a'', ''1'', ''2''] \<and>
   length [''a'', ''1'', ''2''] = length [''a''] + length [(1::nat, fcn_first :: unit fcn), (1, fcn_last)] \<and>
   (\<exists>vals. list_all2 (\<lambda>(n, f) v. \<exists>vs. [1 \<mapsto> [''1'', ''2'']] n = Some vs \<and> f vs = Inr v)
             [(1::nat, fcn_first :: unit fcn), (1, fcn_last)] vals \<and>
           [''a'', ''1'', ''2''] = [''a''] @ map (str text_only) vals)"
proof -
  have h: "add_mergeable text_only [(1, fcn_first), (1, fcn_last)] [1 \<mapsto> [''1'', ''2'']] [''a'']
     = Inr [''a'', ''1'', ''2'']"
    by (simp add: fcn_first_def fcn_last_def)
  show ?thesis by (rule conjI[OF h every_binding_contributes[OF h]])
qed


text \<open>
  The same with a field that holds the delimiter: the line printed for the row of the two
  fields \<^verbatim>\<open>a,b\<close> and \<^verbatim>\<open>1\<close> reads back as three fields, and the second run prints
  another line.
\<close>

lemma reread_field_with_delimiter:
  "op_merge text_only '','' [''1:first''] [[''a,b'', ''1'']] = ([''a,b,1''], Done) \<and>
   read_rows CHR '','' [''a,b,1''] = [[''a'', ''b'', ''1'']] \<and>
   op_merge text_only '','' [''1:first''] [[''a'', ''b'', ''1'']] = ([''a,1,b''], Done)"
  by code_simp



text \<open>
  C5. Every line that a run prints, whether the run ends normally or by an exception, is
  the join of the comparable fields of its group, that is the fields of the group's first
  row at the positions that no binding names, in their order in the row, followed by the
  results of the bindings in the order in which the bindings were given. The lines are
  those of the first maximal runs of the input, in order, and of all of them when the run
  ends normally.
\<close>

theorem output_field_order:
  assumes "field_functions lib args = Inr ffs"
    and "op_merge lib d args rows = (out, res)"
  shows "list_all2
           (\<lambda>line g. \<exists>vals.
              list_all2 (\<lambda>(n, f) v. f (map (\<lambda>r. r ! n) g) = Inr v) ffs vals \<and>
              line = join d (nths (hd g) (- set (map fst ffs)) @ map (str lib) vals))
           out (take (length out) (runs (make_comparable (sfield_set ffs)) rows)) \<and>
         (res = Done \<longrightarrow> length out = length (runs (make_comparable (sfield_set ffs)) rows))"
proof -
  let ?R = "runs (make_comparable (sfield_set ffs)) rows"
  have a: "list_all2 (\<lambda>line g. flush lib d ffs g = Inr line) out (take (length out) ?R)"
    using assms by (rule op_merge_prefix)
  have b: "\<exists>vals. list_all2 (\<lambda>(n, f) v. f (map (\<lambda>r. r ! n) g) = Inr v) ffs vals \<and>
              line = join d (nths (hd g) (- set (map fst ffs)) @ map (str lib) vals)"
    if "flush lib d ffs g = Inr line" for line g
    using that unfolding flush_Inr flush_row_Inr make_comparable_nths set_sfield_set by blast
  have c: "list_all2
           (\<lambda>line g. \<exists>vals.
              list_all2 (\<lambda>(n, f) v. f (map (\<lambda>r. r ! n) g) = Inr v) ffs vals \<and>
              line = join d (nths (hd g) (- set (map fst ffs)) @ map (str lib) vals))
           out (take (length out) ?R)"
    using a b by (rule list_all2_mono)
  have e: "length out = length ?R" if "res = Done"
    using op_merge_Done[OF assms(1), of d rows out] assms(2) that
    by (auto dest: list_all2_lengthD)
  from c e show ?thesis by blast
qed

theorem output_field_order_witness:
  "field_functions text_only [''0:last'', ''2:first''] = Inr [(0, fcn_last), (2, fcn_first)] \<and>
   op_merge text_only '','' [''0:last'', ''2:first'']
     [[''x'', ''a'', ''1''], [''y'', ''a'', ''2''], [''z'', ''b'', ''3''], [''u'', ''c'']]
     = ([''a,y,1'', ''b,z,3''], Raised IndexError) \<and>
   take (length [''a,y,1'', ''b,z,3''])
     (runs (make_comparable (sfield_set [(0, fcn_last :: unit fcn), (2, fcn_first)]))
        [[''x'', ''a'', ''1''], [''y'', ''a'', ''2''], [''z'', ''b'', ''3''], [''u'', ''c'']])
     = [[[''x'', ''a'', ''1''], [''y'', ''a'', ''2'']], [[''z'', ''b'', ''3'']]] \<and>
   list_all2
     (\<lambda>line g. \<exists>vals.
        list_all2 (\<lambda>(n, f) v. f (map (\<lambda>r. r ! n) g) = Inr v)
          [(0, fcn_last :: unit fcn), (2, fcn_first)] vals \<and>
        line = join '','' (nths (hd g) (- set (map fst [(0, fcn_last :: unit fcn), (2, fcn_first)]))
                 @ map (str text_only) vals))
     [''a,y,1'', ''b,z,3'']
     (take (length [''a,y,1'', ''b,z,3''])
        (runs (make_comparable (sfield_set [(0, fcn_last :: unit fcn), (2, fcn_first)]))
           [[''x'', ''a'', ''1''], [''y'', ''a'', ''2''], [''z'', ''b'', ''3''], [''u'', ''c'']]))"
proof -
  have h1: "field_functions text_only [''0:last'', ''2:first''] = Inr [(0, fcn_last), (2, fcn_first)]"
    by (simp add: parse_simps)
  have h2: "op_merge text_only '','' [''0:last'', ''2:first'']
     [[''x'', ''a'', ''1''], [''y'', ''a'', ''2''], [''z'', ''b'', ''3''], [''u'', ''c'']]
     = ([''a,y,1'', ''b,z,3''], Raised IndexError)"
    by code_simp
  have h3: "take (length [''a,y,1'', ''b,z,3''])
     (runs (make_comparable (sfield_set [(0, fcn_last :: unit fcn), (2, fcn_first)]))
        [[''x'', ''a'', ''1''], [''y'', ''a'', ''2''], [''z'', ''b'', ''3''], [''u'', ''c'']])
     = [[[''x'', ''a'', ''1''], [''y'', ''a'', ''2'']], [[''z'', ''b'', ''3'']]]"
    by code_simp
  show ?thesis
    by (intro conjI h1 h2 h3 conjunct1[OF output_field_order[OF h1 h2]])
qed

text \<open>
  The entry \<^verbatim>\<open>stdev\<close> of \<^verbatim>\<open>fcn_set\<close>, for every library: on a group of exactly one
  value it raises ValueError when the value is no number, and otherwise calls the library's
  function on the pair of that value with itself, never on a list of one element.
\<close>

theorem stdev_singleton_duplicates:
  "map_of (fcn_set lib) ''stdev'' = Some (numberify lib (trivial_multiple (lib_stdev lib))) \<and>
   numberify lib (trivial_multiple (lib_stdev lib)) [s] =
     (case lib_float lib s of None \<Rightarrow> Inl ValueError | Some x \<Rightarrow> lib_stdev lib [x, x])"
  by (simp add: fcn_set_def numberify_def trivial_multiple_def split: option.split)

text \<open>
  So, for every library whose \<^verbatim>\<open>stdev\<close> raises StatisticsError on fewer than two values
  only, the entry does not raise it on a group of one value that is a number.
\<close>

lemma stdev_singleton_never_insufficient:
  assumes "lib_float lib s = Some x"
    and "\<And>xs. 2 \<le> length xs \<Longrightarrow> lib_stdev lib xs \<noteq> Inl StatisticsError"
  shows "numberify lib (trivial_multiple (lib_stdev lib)) [s] \<noteq> Inl StatisticsError"
  using assms(2)[of "[x, x]"] assms(1)
  by (simp add: numberify_def trivial_multiple_def)

text \<open>
  C6, as the specification states it, fails: the texts \<^verbatim>\<open>inf\<close> and \<^verbatim>\<open>nan\<close> parse as
  numbers, and on a group of one such value the result of the entry \<^verbatim>\<open>stdev\<close> is not 0:
  the deviation of an infinity from itself is NaN.
\<close>

theorem stdev_singleton_counterexample:
  "lib_float float_lib ''inf'' = Some PosInf \<and>
   lib_float float_lib ''nan'' = Some NaN \<and>
   map_of (fcn_set float_lib) ''stdev''
     = Some (numberify float_lib (trivial_multiple (lib_stdev float_lib))) \<and>
   numberify float_lib (trivial_multiple (lib_stdev float_lib)) [''inf''] = Inr (PyFloat NaN) \<and>
   numberify float_lib (trivial_multiple (lib_stdev float_lib)) [''nan''] = Inr (PyFloat NaN) \<and>
   (Inr (PyFloat NaN) :: error + pyfloat pyval) \<noteq> Inr (PyFloat (Finite 0))"
  by (simp add: float_lib_def py_float_def fcn_set_def numberify_def trivial_multiple_def
      stdev_def fsum_def fsub_def Let_def)

text \<open>
  C6, amended. On a group of exactly one value that parses as a finite number, the entry
  \<^verbatim>\<open>stdev\<close> of \<^verbatim>\<open>fcn_set\<close> does not fail: \<^verbatim>\<open>trivial_multiple\<close> gives the library's
  function the pair of the value with itself, and the result is 0.
\<close>

theorem stdev_singleton_finite:
  assumes "lib_float lib s = Some (Finite x)" and "lib_stdev lib = stdev"
  shows "map_of (fcn_set lib) ''stdev'' = Some (numberify lib (trivial_multiple (lib_stdev lib))) \<and>
         trivial_multiple (lib_stdev lib) [Finite x] = lib_stdev lib [Finite x, Finite x] \<and>
         numberify lib (trivial_multiple (lib_stdev lib)) [s] = Inr (PyFloat (Finite 0))"
  using assms
  by (simp add: fcn_set_def numberify_def trivial_multiple_def stdev_pair_finite)

theorem stdev_singleton_finite_witness:
  "lib_float float_lib ''42'' = Some (Finite 42) \<and>
   lib_stdev float_lib = stdev \<and>
   map_of (fcn_set float_lib) ''stdev''
     = Some (numberify float_lib (trivial_multiple (lib_stdev float_lib))) \<and>
   trivial_multiple (lib_stdev float_lib) [Finite 42] = lib_stdev float_lib [Finite 42, Finite 42] \<and>
   numberify float_lib (trivial_multiple (lib_stdev float_lib)) [''42''] = Inr (PyFloat (Finite 0))"
proof -
  have h1: "lib_float float_lib ''42'' = Some (Finite 42)"
    by (simp add: float_lib_def py_float_def is_digit_def int_of_digits_def digit_value_def)
  have h2: "lib_stdev float_lib = stdev" by (simp add: float_lib_def)
  from stdev_singleton_finite[OF h1 h2] h1 h2 show ?thesis by blast
qed

text \<open>
  C7. On a non-empty sequence of values, \<^verbatim>\<open>first\<close> returns the first and \<^verbatim>\<open>last\<close> the last
  value, as the text it is: the result does not depend on the library, so no text is parsed
  as a number, and \<^verbatim>\<open>add_mergeable\<close> appends that text unchanged.
\<close>

theorem first_last_pass_through:
  assumes "l \<noteq> []"
  shows "map_of (fcn_set (lib :: 'f pylib)) ''first'' = Some fcn_first \<and>
         map_of (fcn_set lib) ''last'' = Some fcn_last \<and>
         (fcn_first :: 'f fcn) l = Inr (PyStr (hd l)) \<and>
         (fcn_last :: 'f fcn) l = Inr (PyStr (last l)) \<and>
         add_mergeable lib [(n, fcn_first), (n, fcn_last)] (av(n \<mapsto> l)) row =
           Inr (row @ [hd l, last l])"
proof -
  have a: "map_of (fcn_set lib) ''first'' = Some fcn_first"
    and b: "map_of (fcn_set lib) ''last'' = Some fcn_last"
    by (simp_all add: fcn_set_def)
  have c: "(fcn_first :: 'f fcn) l = Inr (PyStr (hd l))"
    using assms by (cases l) (simp_all add: fcn_first_def)
  have d: "(fcn_last :: 'f fcn) l = Inr (PyStr (last l))"
    using assms by (simp add: fcn_last_def)
  have e: "add_mergeable lib [(n, fcn_first), (n, fcn_last)] (av(n \<mapsto> l)) row =
           Inr (row @ [hd l, last l])"
    by (simp add: c d)
  show ?thesis by (intro conjI a b c d e)
qed

theorem first_last_pass_through_witness:
  "[''x1'', ''not a number'', ''3''] \<noteq> [] \<and>
   map_of (fcn_set text_only) ''first'' = Some fcn_first \<and>
   map_of (fcn_set text_only) ''last'' = Some fcn_last \<and>
   (fcn_first :: unit fcn) [''x1'', ''not a number'', ''3''] = Inr (PyStr ''x1'') \<and>
   (fcn_last :: unit fcn) [''x1'', ''not a number'', ''3''] = Inr (PyStr ''3'') \<and>
   add_mergeable text_only [(1, fcn_first), (1, fcn_last)]
     (Map.empty(1 \<mapsto> [''x1'', ''not a number'', ''3''])) [''k''] = Inr [''k'', ''x1'', ''3'']"
proof -
  have h: "[''x1'', ''not a number'', ''3''] \<noteq> []" by simp
  from first_last_pass_through[OF h, of text_only 1 Map.empty "[''k'']"] h
  show ?thesis by simp
qed

text \<open>
  The arguments of \<^verbatim>\<open>--field_function\<close> are parsed before \<^verbatim>\<open>csv_rows\<close> is called: when
  \<^verbatim>\<open>ff\<close> rejects one of them, the run ends by \<^verbatim>\<open>fatal\<close> whatever the rows are, and
  standard output holds the message of \<^verbatim>\<open>fatal\<close> and nothing else.
\<close>

theorem invalid_spec_aborts:
  assumes "field_functions lib args = Inl msg"
  shows "op_merge lib d args rows = ([msg], Raised SystemExit) \<and>
         exit_status (snd (op_merge lib d args rows)) = 1"
  using assms by (simp add: op_merge_def fatal_def)

theorem invalid_spec_aborts_witness:
  "field_functions text_only [''1:last'', ''2:'', ''x''] = Inl ''unable to interpret field:function 2:'' \<and>
   op_merge text_only '';'' [''1:last'', ''2:'', ''x''] [[''a'', ''b'', ''c'']]
     = ([''unable to interpret field:function 2:''], Raised SystemExit) \<and>
   exit_status (snd (op_merge text_only '';'' [''1:last'', ''2:'', ''x''] [[''a'', ''b'', ''c'']])) = 1"
proof -
  have h: "field_functions text_only [''1:last'', ''2:'', ''x'']
      = Inl ''unable to interpret field:function 2:''"
    by (simp add: parse_simps)
  from invalid_spec_aborts[OF h, of "'';''" "[[''a'', ''b'', ''c'']]"] h show ?thesis by blast
qed

text \<open>
  C8. The claim is that a rejected argument ends the run before any row is read, with a
  non-zero exit status and no output. The run does end before any row is read, with status
  1, but \<^verbatim>\<open>fatal\<close> prints its message with a plain \<^verbatim>\<open>print(s)\<close>: the message is on
  standard output, where the merged rows would have been.
\<close>

theorem invalid_spec_message_on_stdout:
  "op_merge text_only '','' [''0:first'', ''x'']  [[''a'', ''1''], [''b'', ''2'']]
     = ([''unable to interpret field:function x''], Raised SystemExit) \<and>
   op_merge text_only '','' [''0:maxx'']  [[''a'', ''1''], [''b'', ''2'']]
     = ([''no such field:function operation: maxx''], Raised SystemExit)"
  by code_simp

text \<open>
  C9. When some row of the input is too short for the field index of a binding, the run
  ends by an exception, with exit status 1; when every row is too short for some binding,
  the exception is the IndexError raised on the first row, and nothing has been printed.
\<close>

theorem index_out_of_range_is_fatal:
  assumes "field_functions lib args = Inr ffs"
    and "r \<in> set rows" and "(n, f) \<in> set ffs" and "length r \<le> n"
  shows "(\<exists>out e. op_merge lib d args rows = (out, Raised e) \<and> exit_status (Raised e) = 1) \<and>
         (list_all (\<lambda>r. \<exists>p\<in>set ffs. length r \<le> fst p) rows \<longrightarrow>
            op_merge lib d args rows = ([], Raised IndexError))"
proof -
  have inv: "\<not> valid_row (sfield_set ffs) r'" if "\<exists>p\<in>set ffs. length r' \<le> fst p" for r'
  proof -
    from that obtain p where "p \<in> set ffs" "length r' \<le> fst p" by blast
    then have "fst p \<in> set (sfield_set ffs)" by (simp add: set_sfield_set)
    with \<open>length r' \<le> fst p\<close> show ?thesis
      by (auto simp: valid_row_def list_all_iff intro!: bexI[of _ "fst p"])
  qed
  have nr: "\<not> valid_row (sfield_set ffs) r" using assms(3,4) by (intro inv) force
  obtain out res where om: "op_merge lib d args rows = (out, res)"
    by (cases "op_merge lib d args rows")
  have "res \<noteq> Done"
  proof
    assume "res = Done"
    with om have "list_all (valid_row (sfield_set ffs)) rows"
      using op_merge_Done_valid[OF assms(1)] by blast
    with assms(2) nr show False by (simp add: list_all_iff)
  qed
  then obtain e where "res = Raised e" by (cases res) simp_all
  with om have first: "\<exists>out e. op_merge lib d args rows = (out, Raised e) \<and> exit_status (Raised e) = 1"
    by simp
  have second: "op_merge lib d args rows = ([], Raised IndexError)"
    if all: "list_all (\<lambda>r. \<exists>p\<in>set ffs. length r \<le> fst p) rows"
  proof -
    from assms(2) obtain r0 rs where rows: "rows = r0 # rs" by (cases rows) simp_all
    with all have "\<not> valid_row (sfield_set ffs) r0" by (intro inv) simp
    then show ?thesis
      by (simp add: rows op_merge_def assms(1) step_empty)
  qed
  from first second show ?thesis by blast
qed

theorem index_out_of_range_is_fatal_witness:
  "field_functions text_only [''9:max''] = Inr [(9, numberify text_only (lib_max text_only))] \<and>
   [''b'', ''2''] \<in> set [[''a'', ''1''], [''b'', ''2'']] \<and>
   (9::nat, numberify text_only (lib_max text_only)) \<in> set [(9, numberify text_only (lib_max text_only))] \<and>
   length [''b'', ''2''] \<le> (9::nat) \<and>
   op_merge text_only '','' [''9:max''] [[''a'', ''1''], [''b'', ''2'']] = ([], Raised IndexError) \<and>
   exit_status (Raised IndexError) = 1"
proof -
  have h1: "field_functions text_only [''9:max''] = Inr [(9, numberify text_only (lib_max text_only))]"
    by (simp add: parse_simps)
  have h2: "[''b'', ''2''] \<in> set [[''a'', ''1''], [''b'', ''2'']]" by simp
  have h3: "(9::nat, numberify text_only (lib_max text_only)) \<in> set [(9, numberify text_only (lib_max text_only))]" by simp
  have h4: "length [''b'', ''2''] \<le> (9::nat)" by simp
  have h5: "list_all (\<lambda>r. \<exists>p\<in>set [(9::nat, numberify text_only (lib_max text_only))]. length r \<le> fst p)
      [[''a'', ''1''], [''b'', ''2'']]" by simp
  from index_out_of_range_is_fatal[OF h1 h2 h3 h4, of "'',''"] h5
  have c: "op_merge text_only '','' [''9:max''] [[''a'', ''1''], [''b'', ''2'']] = ([], Raised IndexError)"
    by blast
  show ?thesis by (intro conjI h1 h2 h3 h4 c) simp
qed

text \<open>
  The run as the state machine of the specification: when every row has a field at the
  index of every binding, the run is the flush of the maximal runs of the rows, one after
  the other, up to the first flush that raises; the lines of the groups flushed before
  stay printed.
\<close>

theorem merge_is_flush_of_runs:
  assumes "field_functions lib args = Inr ffs"
    and "list_all (\<lambda>r. list_all (\<lambda>(n, f). n < length r) ffs) rows"
  shows "op_merge lib d args rows =
           flush_all (flush lib d ffs) (runs (make_comparable (sfield_set ffs)) rows)"
proof -
  have "valid_row (sfield_set ffs) r" if "list_all (\<lambda>(n, f). n < length r) ffs" for r
    using that unfolding valid_row_def list_all_iff set_sfield_set by auto
  with assms(2) have "list_all (valid_row (sfield_set ffs)) rows"
    unfolding list_all_iff by blast
  with assms(1) show ?thesis by (rule op_merge_valid)
qed

theorem merge_is_flush_of_runs_witness:
  "field_functions text_only [''1:last''] = Inr [(1, fcn_last)] \<and>
   list_all (\<lambda>r. list_all (\<lambda>(n, f). n < length r) [(1::nat, fcn_last :: unit fcn)])
     [[''a'', ''1''], [''a'', ''2''], [''b'', ''3'']] \<and>
   op_merge text_only '';'' [''1:last''] [[''a'', ''1''], [''a'', ''2''], [''b'', ''3'']]
     = ([''a;2'', ''b;3''], Done) \<and>
   flush_all (flush text_only '';'' [(1, fcn_last)])
     (runs (make_comparable (sfield_set [(1, fcn_last :: unit fcn)]))
        [[''a'', ''1''], [''a'', ''2''], [''b'', ''3'']])
     = ([''a;2'', ''b;3''], Done)"
proof -
  have h1: "field_functions text_only [''1:last''] = Inr [(1, fcn_last)]"
    by (simp add: parse_simps)
  have h2: "list_all (\<lambda>r. list_all (\<lambda>(n, f). n < length r) [(1::nat, fcn_last :: unit fcn)])
     [[''a'', ''1''], [''a'', ''2''], [''b'', ''3'']]" by simp
  have e: "op_merge text_only '';'' [''1:last''] [[''a'', ''1''], [''a'', ''2''], [''b'', ''3'']]
     = ([''a;2'', ''b;3''], Done)" by code_simp
  from merge_is_flush_of_runs[OF h1 h2, of "'';''"] e h1 h2 show ?thesis by simp
qed

text \<open>
  C10. After any sequence of rows that \<^verbatim>\<open>collect_and_aggregate\<close> has taken without an
  exception, if a group is open (\<^verbatim>\<open>cmp_line\<close> is not None), then at least one row has been
  read, \<^verbatim>\<open>aggregate_values\<close> holds for every aggregated field index a non-empty list with
  one value per row of the current group (the last run of the rows read), and so the
  function of every binding is applied to a non-empty list when the group is flushed.
\<close>

theorem open_group_accumulators:
  assumes "csv_rows (collect_and_aggregate lib d ffs (sfield_set ffs)) rows
             \<lparr>cmp_line = None, aggregate_values = Map.empty\<rparr> = (out, Inr st)"
    and "cmp_line st = Some cl"
  shows "rows \<noteq> [] \<and>
         list_all (\<lambda>n. \<exists>vs. aggregate_values st n = Some vs \<and> vs \<noteq> [] \<and>
                     length vs = length (last (runs (make_comparable (sfield_set ffs)) rows)))
           (sfield_set ffs) \<and>
         list_all (\<lambda>(n, f). \<exists>vs. aggregate_values st n = Some vs \<and> vs \<noteq> []) ffs"
proof -
  let ?sfs = "sfield_set ffs"
  let ?g = "last (runs (make_comparable ?sfs) rows)"
  note i = csv_rows_init[OF assms(1)]
  have ne: "rows \<noteq> []"
  proof
    assume "rows = []"
    with i assms(2) show False by simp
  qed
  then have st: "st = group_state ?sfs ?g" using i by (cases rows) simp_all
  have "runs (make_comparable ?sfs) rows \<noteq> []" using ne by (simp add: runs_eq_Nil)
  then have "?g \<in> set (runs (make_comparable ?sfs) rows)" by (rule last_in_set)
  then have "homogeneous (make_comparable ?sfs) ?g"
    using runs_all_homogeneous[of "make_comparable ?sfs" rows] by (simp add: list_all_iff)
  then have gne: "?g \<noteq> []" by (rule homogeneous_nonempty)
  have a: "\<exists>vs. aggregate_values st n = Some vs \<and> vs \<noteq> [] \<and> length vs = length ?g"
    if "n \<in> set ?sfs" for n
    using that gne by (simp add: st group_state_def accumulators_def)
  have b: "list_all (\<lambda>n. \<exists>vs. aggregate_values st n = Some vs \<and> vs \<noteq> [] \<and>
                     length vs = length ?g) ?sfs"
    unfolding list_all_iff using a by blast
  have c: "list_all (\<lambda>(n, f). \<exists>vs. aggregate_values st n = Some vs \<and> vs \<noteq> []) ffs"
    unfolding list_all_iff
  proof
    fix p assume p: "p \<in> set ffs"
    then have "fst p \<in> set ?sfs" by (simp add: set_sfield_set)
    from a[OF this] show "case p of (n, f) \<Rightarrow> \<exists>vs. aggregate_values st n = Some vs \<and> vs \<noteq> []"
      by (cases p) auto
  qed
  from ne b c show ?thesis by (intro conjI)
qed

theorem open_group_accumulators_witness:
  "csv_rows (collect_and_aggregate text_only '','' [(1, fcn_last)] (sfield_set [(1, fcn_last)]))
       [[''a'', ''1''], [''b'', ''2''], [''b'', ''3'']]
       \<lparr>cmp_line = None, aggregate_values = Map.empty\<rparr> =
     ([''a,1''], Inr \<lparr>cmp_line = Some [''b''], aggregate_values = [1 \<mapsto> [''2'', ''3'']]\<rparr>) \<and>
   cmp_line \<lparr>cmp_line = Some [''b''], aggregate_values = [1 \<mapsto> [''2'', ''3'']]\<rparr> = Some [''b''] \<and>
   last (runs (make_comparable (sfield_set [(1, fcn_last :: unit fcn)]))
       [[''a'', ''1''], [''b'', ''2''], [''b'', ''3'']]) = [[''b'', ''2''], [''b'', ''3'']] \<and>
   list_all (\<lambda>n. \<exists>vs. aggregate_values
                  \<lparr>cmp_line = Some [''b''], aggregate_values = [1 \<mapsto> [''2'', ''3'']]\<rparr> n = Some vs \<and>
                vs \<noteq> [] \<and>
                length vs = length (last (runs (make_comparable (sfield_set [(1, fcn_last :: unit fcn)]))
                                     [[''a'', ''1''], [''b'', ''2''], [''b'', ''3'']])))
     (sfield_set [(1, fcn_last :: unit fcn)])"
proof -
  have h1: "csv_rows (collect_and_aggregate text_only '','' [(1, fcn_last)] (sfield_set [(1, fcn_last)]))
       [[''a'', ''1''], [''b'', ''2''], [''b'', ''3'']]
       \<lparr>cmp_line = None, aggregate_values = Map.empty\<rparr> =
     ([''a,1''], Inr \<lparr>cmp_line = Some [''b''], aggregate_values = [1 \<mapsto> [''2'', ''3'']]\<rparr>)"
    by (simp add: collect_and_aggregate_def sfield_set_def reset_cmp_line_def make_comparable_def
        fcn_last_def text_only_def)
  have h2: "cmp_line \<lparr>cmp_line = Some [''b''], aggregate_values = [1 \<mapsto> [''2'', ''3'']]\<rparr> = Some [''b'']"
    by simp
  have h3: "last (runs (make_comparable (sfield_set [(1, fcn_last :: unit fcn)]))
       [[''a'', ''1''], [''b'', ''2''], [''b'', ''3'']]) = [[''b'', ''2''], [''b'', ''3'']]"
    by code_simp
  from open_group_accumulators[OF h1 h2]
  show ?thesis by (intro conjI h1 h2 h3) simp_all
qed

end
